theory Spec2Isabelle
  imports Complex_Main "HOL-Library.Multiset"
begin

section \<open>Python values used by image\_demo.py\<close>

text \<open>
  A Python \<open>str\<close> is a sequence of Unicode code points; it is modelled as the list of
  those code points, so that \<open>str.strip\<close> can be given Python's own whitespace set.
  A literal of the source is written \<open>py ''...''\<close>.
\<close>

type_synonym pystr = "nat list"

abbreviation py :: "string \<Rightarrow> pystr" where
  "py s \<equiv> map of_char s"

abbreviation LF :: nat where "LF \<equiv> 10"
abbreviation CR :: nat where "CR \<equiv> 13"
abbreviation comma :: nat where "comma \<equiv> 44"
abbreviation slash :: nat where "slash \<equiv> 47"

text \<open>The exceptions that the modelled part of the script can raise.\<close>

datatype error = OSError | IndexError | RuntimeError | TypeError

subsection \<open>String methods\<close>

text \<open>\<open>s.endswith(suffix)\<close> and \<open>s.startswith(prefix)\<close>.\<close>

definition endswith :: "'a list \<Rightarrow> 'a list \<Rightarrow> bool" where
  "endswith s suffix \<longleftrightarrow>
     length suffix \<le> length s \<and> drop (length s - length suffix) s = suffix"

definition startswith :: "'a list \<Rightarrow> 'a list \<Rightarrow> bool" where
  "startswith s prefix \<longleftrightarrow> take (length prefix) s = prefix"

text \<open>
  \<open>s.split(sep)\<close> for a separator of one character and no \<open>maxsplit\<close>: every
  occurrence of the separator ends a token, and the empty string gives \<open>['']\<close>.
\<close>

fun split :: "'a \<Rightarrow> 'a list \<Rightarrow> 'a list list" where
  "split sep [] = [[]]"
| "split sep (c # cs) =
     (if c = sep then [] # split sep cs
      else (case split sep cs of [] \<Rightarrow> [[c]] | w # ws \<Rightarrow> (c # w) # ws))"

text \<open>
  The characters that \<open>str.isspace\<close> accepts, which are those that \<open>s.strip()\<close>
  removes from both ends.
\<close>

definition isspace :: "nat \<Rightarrow> bool" where
  "isspace c \<longleftrightarrow>
     (9 \<le> c \<and> c \<le> 13) \<or> (28 \<le> c \<and> c \<le> 32) \<or> c = 133 \<or> c = 160 \<or> c = 5760 \<or>
     (8192 \<le> c \<and> c \<le> 8202) \<or> c = 8232 \<or> c = 8233 \<or> c = 8239 \<or> c = 8287 \<or> c = 12288"

definition lstrip :: "pystr \<Rightarrow> pystr" where
  "lstrip s = dropWhile isspace s"

definition rstrip :: "pystr \<Rightarrow> pystr" where
  "rstrip s = rev (dropWhile isspace (rev s))"

definition strip :: "pystr \<Rightarrow> pystr" where
  "strip s = rstrip (lstrip s)"

text \<open>\<open>s.rstrip(chars)\<close>: trailing characters are removed while they occur in \<open>chars\<close>.\<close>

definition rstrip_chars :: "'a list \<Rightarrow> 'a list \<Rightarrow> 'a list" where
  "rstrip_chars s chars = rev (dropWhile (\<lambda>c. c \<in> set chars) (rev s))"

subsection \<open>Reading a text file\<close>

text \<open>
  \<open>open(path)\<close> opens in text mode with universal newlines: on reading, \<open>\r\n\<close> and
  a lone \<open>\r\<close> become \<open>\n\<close>. \<open>readlines\<close> then cuts the text after every \<open>\n\<close>
  and keeps the terminator in the line. The files are a map from a path to the decoded
  text; a path outside its domain cannot be opened.
\<close>

fun universal_newlines :: "pystr \<Rightarrow> pystr" where
  "universal_newlines [] = []"
| "universal_newlines [c] = [if c = CR then LF else c]"
| "universal_newlines (c # d # cs) =
     (if c = CR \<and> d = LF then LF # universal_newlines cs
      else if c = CR then LF # universal_newlines (d # cs)
      else c # universal_newlines (d # cs))"

fun readlines :: "pystr \<Rightarrow> pystr list" where
  "readlines [] = []"
| "readlines (c # cs) =
     (if c = LF then [LF] # readlines cs
      else (case readlines cs of [] \<Rightarrow> [[c]] | l # ls \<Rightarrow> (c # l) # ls))"

definition open_readlines :: "(pystr \<rightharpoonup> pystr) \<Rightarrow> pystr \<Rightarrow> error + pystr list" where
  "open_readlines files path =
     (case files path of
        None \<Rightarrow> Inl OSError
      | Some raw \<Rightarrow> Inr (readlines (universal_newlines raw)))"

section \<open>The prompt loader\<close>

text \<open>
  \<^verbatim>\<open>
  if args.text.endswith('.txt'):
      with open(args.text) as f:
          lines = f.readlines()
      texts = [[t.rstrip('\r\n')] for t in lines] + [[' ']]
  else:
      texts = [[t.strip()] for t in args.text.split(',')] + [[' ']]
  \<close>
\<close>

definition file_groups :: "pystr list \<Rightarrow> pystr list list" where
  "file_groups lines = map (\<lambda>t. [rstrip_chars t [CR, LF]]) lines"

definition inline_groups :: "pystr \<Rightarrow> pystr list list" where
  "inline_groups text = map (\<lambda>t. [strip t]) (split comma text)"

definition load_texts :: "(pystr \<rightharpoonup> pystr) \<Rightarrow> pystr \<Rightarrow> error + pystr list list" where
  "load_texts files text =
     (if endswith text (py ''.txt'') then
        (case open_readlines files text of
           Inl e \<Rightarrow> Inl e
         | Inr lines \<Rightarrow> Inr (file_groups lines @ [[py '' '']]))
      else Inr (inline_groups text @ [[py '' '']]))"

text \<open>
  What a line is without its terminator: the property that the groups of a prompt file
  are compared with.
\<close>

definition chomp :: "pystr \<Rightarrow> pystr" where
  "chomp l = (if l \<noteq> [] \<and> last l = LF then butlast l else l)"

section \<open>The list of images\<close>

subsection \<open>posixpath\<close>

text \<open>
  \<^verbatim>\<open>
  def basename(p):
      i = p.rfind('/') + 1
      return p[i:]

  def join(a, *p):
      path = a
      for b in p:
          if b.startswith('/'): path = b
          elif not path or path.endswith('/'): path += b
          else: path += '/' + b
      return path
  \<close>
  Only the call with one further component is made by the script.
\<close>

definition basename :: "pystr \<Rightarrow> pystr" where
  "basename p = rev (takeWhile (\<lambda>c. c \<noteq> slash) (rev p))"

definition join :: "pystr \<Rightarrow> pystr \<Rightarrow> pystr" where
  "join a b =
     (if startswith b [slash] then b
      else if a = [] \<or> endswith a [slash] then a @ b
      else a @ [slash] @ b)"

subsection \<open>Resolving the image argument\<close>

text \<open>
  \<^verbatim>\<open>
  if not osp.isfile(args.image):
      images = [
          osp.join(args.image, img) for img in os.listdir(args.image)
          if img.endswith('.png') or img.endswith('.jpg')
      ]
  else:
      images = [args.image]
  \<close>
  The file system is read through \<open>isfile\<close> and \<open>listdir\<close>; a path that cannot be
  listed (it does not exist, or is no directory) has no listing and \<open>os.listdir\<close> raises.
\<close>

definition resolve_images ::
  "(pystr \<Rightarrow> bool) \<Rightarrow> (pystr \<rightharpoonup> pystr list) \<Rightarrow> pystr \<Rightarrow> error + pystr list" where
  "resolve_images isfile listdir image_arg =
     (if \<not> isfile image_arg then
        (case listdir image_arg of
           None \<Rightarrow> Inl OSError
         | Some entries \<Rightarrow>
             Inr [join image_arg img. img \<leftarrow> entries,
                  endswith img (py ''.png'') \<or> endswith img (py ''.jpg'')])
      else Inr [image_arg])"

section \<open>The postprocessor\<close>

text \<open>
  \<open>pred_instances\<close> is an \<open>InstanceData\<close>: one array per field, all of one length.
  Scores are floating-point numbers; they are read as the rational numbers they denote,
  with the order of the rationals for \<open>>\<close> (not-a-number and the infinities are left
  out of the model).
\<close>

record 'b instance_data =
  bboxes :: "'b list"
  labels :: "int list"
  scores :: "rat list"

definition wf_instances :: "'b instance_data \<Rightarrow> bool" where
  "wf_instances p \<longleftrightarrow>
     length (bboxes p) = length (scores p) \<and> length (labels p) = length (scores p)"

text \<open>The instances row by row: box, class index and score of each.\<close>

definition rows :: "'b instance_data \<Rightarrow> ('b \<times> int \<times> rat) list" where
  "rows p = zip (bboxes p) (zip (labels p) (scores p))"

text \<open>Indexing by a boolean mask keeps the entries where the mask is true.\<close>

definition mask_select :: "'a list \<Rightarrow> bool list \<Rightarrow> 'a list" where
  "mask_select xs keep = map fst (filter snd (zip xs keep))"

definition getitem_mask :: "'b instance_data \<Rightarrow> bool list \<Rightarrow> 'b instance_data" where
  "getitem_mask p keep =
     \<lparr>bboxes = mask_select (bboxes p) keep,
      labels = mask_select (labels p) keep,
      scores = mask_select (scores p) keep\<rparr>"

text \<open>Indexing by a tensor of indices gathers the entries; an index out of range raises.\<close>

definition gather :: "'a list \<Rightarrow> nat list \<Rightarrow> error + 'a list" where
  "gather xs idx =
     (if \<forall>i\<in>set idx. i < length xs then Inr (map (\<lambda>i. xs ! i) idx) else Inl IndexError)"

definition getitem_index :: "'b instance_data \<Rightarrow> nat list \<Rightarrow> error + 'b instance_data" where
  "getitem_index p idx =
     (case gather (bboxes p) idx of
        Inl e \<Rightarrow> Inl e
      | Inr bs \<Rightarrow>
          (case gather (labels p) idx of
             Inl e \<Rightarrow> Inl e
           | Inr ls \<Rightarrow>
               (case gather (scores p) idx of
                  Inl e \<Rightarrow> Inl e
                | Inr ss \<Rightarrow> Inr \<lparr>bboxes = bs, labels = ls, scores = ss\<rparr>)))"

text \<open>
  \<open>Tensor.topk(k)[1]\<close> belongs to the tensor library. It raises when \<open>k\<close> is
  negative or exceeds the length; otherwise it returns the indices of the \<open>k\<close> largest
  entries, largest first, and promises no order among equal entries. The selection is
  therefore a parameter \<open>tk\<close>, and \<open>is_topk\<close> is what the library promises of it.
\<close>

definition topk :: "(rat list \<Rightarrow> nat \<Rightarrow> nat list) \<Rightarrow> rat list \<Rightarrow> int \<Rightarrow> error + nat list" where
  "topk tk xs k =
     (if k < 0 \<or> int (length xs) < k then Inl RuntimeError else Inr (tk xs (nat k)))"

definition is_topk :: "rat list \<Rightarrow> nat \<Rightarrow> nat list \<Rightarrow> bool" where
  "is_topk xs k idx \<longleftrightarrow>
     length idx = k \<and> distinct idx \<and> (\<forall>i\<in>set idx. i < length xs) \<and>
     (\<forall>i\<in>set idx. \<forall>j\<in>set [0..<length xs] - set idx. xs ! j \<le> xs ! i) \<and>
     sorted_wrt (\<lambda>i j. xs ! j \<le> xs ! i) idx"

text \<open>One selection that keeps the promise: a stable sort by falling score.\<close>

definition topk_stable :: "rat list \<Rightarrow> nat \<Rightarrow> nat list" where
  "topk_stable xs k = take k (sort_key (\<lambda>i. - (xs ! i)) [0..<length xs])"

text \<open>
  \<^verbatim>\<open>
  pred_instances = pred_instances[pred_instances.scores.float() > score_thr]
  if len(pred_instances.scores) > max_dets:
      indices = pred_instances.scores.float().topk(max_dets)[1]
      pred_instances = pred_instances[indices]
  \<close>
\<close>

definition threshold_instances :: "'b instance_data \<Rightarrow> rat \<Rightarrow> 'b instance_data" where
  "threshold_instances p score_thr =
     getitem_mask p (map (\<lambda>s. s > score_thr) (scores p))"

definition truncate_instances ::
  "(rat list \<Rightarrow> nat \<Rightarrow> nat list) \<Rightarrow> 'b instance_data \<Rightarrow> int \<Rightarrow> error + 'b instance_data" where
  "truncate_instances tk p max_dets =
     (if int (length (scores p)) > max_dets then
        (case topk tk (scores p) max_dets of
           Inl e \<Rightarrow> Inl e
         | Inr indices \<Rightarrow> getitem_index p indices)
      else Inr p)"

definition postprocess ::
  "(rat list \<Rightarrow> nat \<Rightarrow> nat list) \<Rightarrow> 'b instance_data \<Rightarrow> int \<Rightarrow> rat \<Rightarrow>
   error + 'b instance_data" where
  "postprocess tk p max_dets score_thr =
     truncate_instances tk (threshold_instances p score_thr) max_dets"

section \<open>Labels\<close>

text \<open>
  \<open>xs[i]\<close> on a Python list: a negative index counts from the end, and an index
  outside \<open>-len(xs) .. len(xs) - 1\<close> raises \<open>IndexError\<close>.
\<close>

definition py_getitem :: "'a list \<Rightarrow> int \<Rightarrow> error + 'a" where
  "py_getitem xs i =
     (if 0 \<le> i \<and> i < int (length xs) then Inr (xs ! nat i)
      else if i < 0 \<and> - int (length xs) \<le> i then Inr (xs ! nat (int (length xs) + i))
      else Inl IndexError)"

text \<open>
  \<open>f"{x:0.2f}"\<close> for a finite \<open>x\<close>: a minus sign when \<open>x\<close> is negative, then the
  decimal digits of \<open>|x|\<close> rounded to the nearest hundredth, a tie going to the even
  neighbour, with two digits after the point.
\<close>

definition digit_char :: "nat \<Rightarrow> char" where
  "digit_char d = ''0123456789'' ! d"

function str_nat :: "nat \<Rightarrow> string" where
  "str_nat n = (if n < 10 then [digit_char n] else str_nat (n div 10) @ [digit_char (n mod 10)])"
  by pat_completeness auto
termination
  by (relation "measure id") auto

declare str_nat.simps [simp del]

definition round_half_even :: "rat \<Rightarrow> int" where
  "round_half_even x =
     (let f = \<lfloor>x\<rfloor>; d = x - of_int f
      in if d < 1 / 2 then f else if 1 / 2 < d then f + 1 else if even f then f else f + 1)"

definition format_2f :: "rat \<Rightarrow> string" where
  "format_2f x =
     (let n = nat (round_half_even (\<bar>x\<bar> * 100))
      in (if x < 0 then [CHR ''-''] else []) @ str_nat (n div 100) @ [CHR ''.''] @
         [digit_char (n mod 100 div 10), digit_char (n mod 10)])"

text \<open>
  \<^verbatim>\<open>
  labels = [
      f"{texts[class_id][0]} {confidence:0.2f}" for class_id, confidence in
      zip(detections.class_id, detections.confidence)
  ]
  \<close>
  The first label that cannot be built raises, and no list is produced.
\<close>

definition make_label :: "pystr list list \<Rightarrow> int \<Rightarrow> rat \<Rightarrow> error + pystr" where
  "make_label texts class_id confidence =
     (case py_getitem texts class_id of
        Inl e \<Rightarrow> Inl e
      | Inr grp \<Rightarrow>
          (case py_getitem grp 0 of
             Inl e \<Rightarrow> Inl e
           | Inr name \<Rightarrow> Inr (name @ py '' '' @ py (format_2f confidence))))"

fun collect :: "(error + 'a) list \<Rightarrow> error + 'a list" where
  "collect [] = Inr []"
| "collect (Inl e # rs) = Inl e"
| "collect (Inr x # rs) = (case collect rs of Inl e \<Rightarrow> Inl e | Inr xs \<Rightarrow> Inr (x # xs))"

definition make_labels :: "pystr list list \<Rightarrow> 'b instance_data \<Rightarrow> error + pystr list" where
  "make_labels texts p =
     collect (map (\<lambda>(class_id, confidence). make_label texts class_id confidence)
                  (zip (labels p) (scores p)))"

section \<open>Inference on one image, and the run over all images\<close>



section \<open>Facts about the string methods\<close>


lemma split_not_Nil: "split sep s \<noteq> []"
  by (induction s) (auto split: list.splits)

lemma split_joined: "concat (map (\<lambda>w. sep # w) (split sep s)) = sep # s"
  by (induction s) (auto split: list.splits)

lemma split_no_sep: "w \<in> set (split sep s) \<Longrightarrow> sep \<notin> set w"
  by (induction s arbitrary: w) (auto split: list.splits if_splits)

lemma endswith_iff: "endswith s suf \<longleftrightarrow> (\<exists>p. s = p @ suf)"
proof
  assume "endswith s suf"
  then have "s = take (length s - length suf) s @ suf"
    unfolding endswith_def by (metis append_take_drop_id)
  then show "\<exists>p. s = p @ suf" ..
next
  assume "\<exists>p. s = p @ suf"
  then show "endswith s suf" unfolding endswith_def by auto
qed

lemma universal_newlines_no_CR: "CR \<notin> set (universal_newlines s)"
  by (induction s rule: universal_newlines.induct) auto

lemma readlines_Nil_iff: "readlines s = [] \<longleftrightarrow> s = []"
  by (cases s) (auto split: list.splits)

lemma readlines_concat: "concat (readlines s) = s"
  by (induction s) (auto split: list.splits)

lemma readlines_not_Nil: "l \<in> set (readlines s) \<Longrightarrow> l \<noteq> []"
  by (induction s arbitrary: l) (auto split: list.splits if_splits)

lemma readlines_LF: "l \<in> set (readlines s) \<Longrightarrow> LF \<notin> set (butlast l)"
  by (induction s arbitrary: l) (auto split: list.splits if_splits)

lemma readlines_set: "l \<in> set (readlines s) \<Longrightarrow> set l \<subseteq> set s"
  using readlines_concat [of s] by (metis Sup_upper  image_eqI set_concat)

lemma length_readlines:
  "length (readlines s) = count_list s LF + (if s = [] \<or> last s = LF then 0 else 1)"
  by (induction s) (auto split: list.splits simp: readlines_Nil_iff)

lemma rstrip_chars_append:
  "\<forall>c\<in>set b. c \<in> set chars \<Longrightarrow> a = [] \<or> last a \<notin> set chars \<Longrightarrow>
   rstrip_chars (a @ b) chars = a"
  unfolding rstrip_chars_def
  by (cases a rule: rev_cases) (auto simp: dropWhile_append)

lemma rstrip_line:
  assumes "l \<noteq> []" and "LF \<notin> set (butlast l)" and "CR \<notin> set l"
  shows "rstrip_chars l [CR, LF] = chomp l"
proof (cases "last l = LF")
  case True
  with assms have l: "l = butlast l @ [LF]" by (metis append_butlast_last_id)
  have "CR \<notin> set (butlast l)" using assms(3) by (meson in_set_butlastD)
  then have "butlast l = [] \<or> last (butlast l) \<notin> set [CR, LF]"
    using assms(2) by (metis empty_iff empty_set last_in_set set_ConsD)
  then have "rstrip_chars (butlast l @ [LF]) [CR, LF] = butlast l"
    by (intro rstrip_chars_append) auto
  with l True assms(1) show ?thesis by (simp add: chomp_def)
next
  case False
  moreover have "last l \<in> set l" using assms(1) by simp
  ultimately have "last l \<notin> set [CR, LF]" using assms(3) by auto
  then have "rstrip_chars (l @ []) [CR, LF] = l"
    by (intro rstrip_chars_append) auto
  with \<open>last l \<noteq> LF\<close> show ?thesis by (simp add: chomp_def)
qed

lemma strip_decomp:
  "\<exists>a b. t = a @ strip t @ b \<and> (\<forall>c\<in>set a. isspace c) \<and> (\<forall>c\<in>set b. isspace c)"
proof -
  let ?a = "takeWhile isspace t"
  let ?b = "rev (takeWhile isspace (rev (lstrip t)))"
  have "lstrip t = strip t @ ?b"
    unfolding strip_def rstrip_def
    by (metis rev_append rev_rev_ident takeWhile_dropWhile_id)
  then have "t = ?a @ strip t @ ?b"
    unfolding lstrip_def by (metis takeWhile_dropWhile_id)
  moreover have "\<forall>c\<in>set ?a. isspace c" by (meson set_takeWhileD)
  moreover have "\<forall>c\<in>set ?b. isspace c" by (metis set_rev set_takeWhileD)
  ultimately show ?thesis by blast
qed

lemma strip_ends:
  assumes "strip t \<noteq> []"
  shows "\<not> isspace (hd (strip t)) \<and> \<not> isspace (last (strip t))"
proof -
  have l: "\<not> isspace (last (strip t))"
    using assms unfolding strip_def rstrip_def
    by (metis hd_dropWhile hd_rev rev_is_Nil_conv rev_rev_ident)
  obtain b where b: "lstrip t = strip t @ b"
    unfolding strip_def rstrip_def
    by (metis rev_append rev_rev_ident takeWhile_dropWhile_id)
  then have "hd (strip t) = hd (lstrip t)" using assms by simp
  moreover have "lstrip t \<noteq> []" using b assms by simp
  ultimately have "\<not> isspace (hd (strip t))"
    unfolding lstrip_def by (metis hd_dropWhile)
  with l show ?thesis by simp
qed

section \<open>The prompt loader: what it returns\<close>



text \<open>
  Claim C10. Whatever the text argument, every group of a loaded prompt set holds exactly
  one string, and the last group is the sentinel holding the single space: in the file
  branch the set is one singleton per line and then \<open>[' ']\<close>, in the inline branch one
  singleton per token and then \<open>[' ']\<close>.
\<close>

theorem singleton_groups:
  assumes "load_texts files text = Inr ps"
  shows "(\<forall>g\<in>set ps. length g = 1) \<and> ps \<noteq> [] \<and> last ps = [py '' ''] \<and>
         (if endswith text (py ''.txt'')
          then \<exists>lines. ps = map (\<lambda>t. [rstrip_chars t [CR, LF]]) lines @ [[py '' '']]
          else ps = map (\<lambda>t. [strip t]) (split comma text) @ [[py '' '']])"
  using assms
  by (auto simp: load_texts_def file_groups_def inline_groups_def split: if_splits sum.splits)

theorem singleton_groups_witness:
  "load_texts (Map.empty(py ''p.txt'' \<mapsto> py ''cat'' @ [LF, LF] @ py ''dog''))
     (py ''p.txt'') = Inr [[py ''cat''], [[]], [py ''dog''], [py '' '']] \<and>
   map length [[py ''cat''], [[]], [py ''dog''], [py '' '']] = [1, 1, 1, 1] \<and>
   last [[py ''cat''], [[]], [py ''dog''], [py '' '']] = [py '' '']"
proof -
  have e: "load_texts (Map.empty(py ''p.txt'' \<mapsto> py ''cat'' @ [LF, LF] @ py ''dog''))
     (py ''p.txt'') = Inr [[py ''cat''], [[]], [py ''dog''], [py '' '']]"
    by (simp add: load_texts_def endswith_def open_readlines_def file_groups_def
        rstrip_chars_def)
  show ?thesis using e singleton_groups [OF e] by simp
qed

text \<open>
  Claim C7. For a text argument that ends in \<open>.txt\<close> and names a readable file, the
  loader returns one group per line of the file, in order, holding the line without its
  terminator, followed by the sentinel: the number of groups is the number of lines plus
  one, and a group is the empty string exactly where the line is empty, so empty lines
  are kept.
\<close>

theorem file_prompts:
  assumes "endswith text (py ''.txt'')" and "files text = Some raw"
  shows "\<exists>ps. load_texts files text = Inr ps \<and>
           length ps = length (readlines (universal_newlines raw)) + 1 \<and>
           (\<forall>i < length (readlines (universal_newlines raw)).
              ps ! i = [chomp (readlines (universal_newlines raw) ! i)] \<and>
              (ps ! i = [[]] \<longleftrightarrow> readlines (universal_newlines raw) ! i = [LF])) \<and>
           last ps = [py '' '']"
proof -
  let ?lines = "readlines (universal_newlines raw)"
  have ld: "load_texts files text = Inr (file_groups ?lines @ [[py '' '']])"
    using assms by (simp add: load_texts_def open_readlines_def)
  have len: "length (file_groups ?lines) = length ?lines" by (simp add: file_groups_def)
  have g: "file_groups ?lines ! i = [chomp (?lines ! i)]"
    and c: "chomp (?lines ! i) = [] \<longleftrightarrow> ?lines ! i = [LF]" if "i < length ?lines" for i
  proof -
    let ?l = "?lines ! i"
    have m: "?l \<in> set ?lines" using that by simp
    have ne: "?l \<noteq> []" using m by (rule readlines_not_Nil)
    have lf: "LF \<notin> set (butlast ?l)" using m by (rule readlines_LF)
    have cr: "CR \<notin> set ?l"
      using readlines_set [OF m] universal_newlines_no_CR [of raw] by blast
    show "file_groups ?lines ! i = [chomp ?l]"
      using that by (simp add: file_groups_def rstrip_line [OF ne lf cr])
    show "chomp ?l = [] \<longleftrightarrow> ?l = [LF]"
    proof
      assume "chomp ?l = []"
      then show "?l = [LF]"
        using ne by (auto simp: chomp_def split: if_splits) (metis append_butlast_last_id append_Nil)
    next
      assume "?l = [LF]"
      then show "chomp ?l = []" by (simp add: chomp_def)
    qed
  qed
  show ?thesis
    unfolding ld by (simp add: nth_append len g c)
qed

theorem file_prompts_witness:
  "endswith (py ''p.txt'') (py ''.txt'') \<and>
   (\<exists>ps. load_texts (Map.empty(py ''p.txt'' \<mapsto> py ''cat'' @ [CR, LF, LF] @ py ''dog''))
           (py ''p.txt'') = Inr ps \<and>
      length ps = 3 + 1 \<and> ps ! 0 = [py ''cat''] \<and> ps ! 1 = [[]] \<and> ps ! 2 = [py ''dog''] \<and>
      last ps = [py '' ''])"
proof -
  let ?files = "Map.empty(py ''p.txt'' \<mapsto> py ''cat'' @ [CR, LF, LF] @ py ''dog'')"
  have h: "endswith (py ''p.txt'') (py ''.txt'')" by (simp add: endswith_def)
  have f: "?files (py ''p.txt'') = Some (py ''cat'' @ [CR, LF, LF] @ py ''dog'')" by simp
  have l: "readlines (universal_newlines (py ''cat'' @ [CR, LF, LF] @ py ''dog'')) =
           [py ''cat'' @ [LF], [LF], py ''dog'']" by simp
  show ?thesis
    using h file_prompts [where files = ?files, OF h f] unfolding l by (auto simp: chomp_def)
qed



section \<open>The list of images: what it contains\<close>

lemma join_relative:
  "slash \<notin> set b \<Longrightarrow>
   join a b = (if a = [] \<or> endswith a [slash] then a else a @ [slash]) @ b"
  by (cases b) (auto simp: join_def startswith_def)

lemma join_inject:
  "slash \<notin> set b \<Longrightarrow> slash \<notin> set b' \<Longrightarrow> join a b = join a b' \<longleftrightarrow> b = b'"
  by (simp add: join_relative)


lemma basename_suffix: "\<exists>d. p = d @ basename p \<and> (d = [] \<or> last d = slash)"
proof -
  let ?d = "rev (dropWhile (\<lambda>c. c \<noteq> slash) (rev p))"
  have "p = ?d @ basename p"
    unfolding basename_def by (metis rev_append rev_rev_ident takeWhile_dropWhile_id)
  moreover have "?d = [] \<or> last ?d = slash"
    by (metis (mono_tags, lifting) hd_dropWhile last_rev rev_is_Nil_conv)
  ultimately show ?thesis by blast
qed

lemma comprehension_map_filter:
  "concat (map (\<lambda>x. if P x then [f x] else []) xs) = map f (filter P xs)"
  by (induction xs) auto

text \<open>
  Claim C5. When the image argument is an existing file, the job list is that one path,
  whatever its extension. Otherwise the argument is listed as a directory and the jobs
  are, in listing order, the joined paths of exactly those entries whose name is some
  stem followed by \<open>.png\<close> or by \<open>.jpg\<close>, in lower case; every other entry of the
  listing has no job. Entries are not descended into.
\<close>

theorem image_jobs:
  "(isfile a \<longrightarrow> resolve_images isfile listdir a = Inr [a]) \<and>
   (\<not> isfile a \<longrightarrow> listdir a = Some entries \<longrightarrow>
      (\<exists>jobs. resolve_images isfile listdir a = Inr jobs \<and>
         jobs = map (join a)
           (filter (\<lambda>e. \<exists>stem. e = stem @ py ''.png'' \<or> e = stem @ py ''.jpg'') entries) \<and>
         ((\<forall>e\<in>set entries. slash \<notin> set e) \<longrightarrow>
            (\<forall>e\<in>set entries. join a e \<in> set jobs \<longleftrightarrow>
               (\<exists>stem. e = stem @ py ''.png'' \<or> e = stem @ py ''.jpg'')))))"
proof -
  have ok: "(endswith e (py ''.png'') \<or> endswith e (py ''.jpg'')) \<longleftrightarrow>
            (\<exists>stem. e = stem @ py ''.png'' \<or> e = stem @ py ''.jpg'')" for e :: pystr
    unfolding endswith_iff by blast
  have 1: "isfile a \<longrightarrow> resolve_images isfile listdir a = Inr [a]"
    by (simp add: resolve_images_def)
  have 2: "resolve_images isfile listdir a = Inr (map (join a)
           (filter (\<lambda>e. \<exists>stem. e = stem @ py ''.png'' \<or> e = stem @ py ''.jpg'') entries))"
    if "\<not> isfile a" "listdir a = Some entries"
    using that unfolding resolve_images_def ok by (simp add: comprehension_map_filter)
  have 3: "join a e \<in> join a ` {e \<in> set entries. P e} \<longleftrightarrow> P e"
    if "\<forall>e\<in>set entries. slash \<notin> set e" "e \<in> set entries" for e P
    using that by (auto simp: join_inject)
  show ?thesis using 1 2 3 by (auto simp del: map_eq_conv of_char_Char)
qed

lemma image_suffix_iff:
  "(\<exists>stem. e = stem @ py ''.png'' \<or> e = stem @ py ''.jpg'') \<longleftrightarrow>
   endswith e (py ''.png'') \<or> endswith e (py ''.jpg'')"
  unfolding endswith_iff by blast

theorem image_jobs_witness:
  "resolve_images (\<lambda>p. p = py ''in/x.bmp'') Map.empty (py ''in/x.bmp'') = Inr [py ''in/x.bmp''] \<and>
   resolve_images (\<lambda>p. False)
     (Map.empty(py ''in'' \<mapsto> [py ''a.png'', py ''b.JPG'', py ''c.txt'', py ''d.jpg'', py ''e.png.bak'']))
     (py ''in'') = Inr [py ''in/a.png'', py ''in/d.jpg'']"
proof -
  let ?entries = "[py ''a.png'', py ''b.JPG'', py ''c.txt'', py ''d.jpg'', py ''e.png.bak'']"
  let ?ls = "Map.empty(py ''in'' \<mapsto> ?entries)"
  have 1: "resolve_images (\<lambda>p. p = py ''in/x.bmp'') Map.empty (py ''in/x.bmp'') = Inr [py ''in/x.bmp'']"
    using image_jobs [of "\<lambda>p. p = py ''in/x.bmp''" "py ''in/x.bmp''" Map.empty] by blast
  have "resolve_images (\<lambda>p. False) ?ls (py ''in'') = Inr (map (join (py ''in''))
           (filter (\<lambda>e. \<exists>stem. e = stem @ py ''.png'' \<or> e = stem @ py ''.jpg'') ?entries))"
    using image_jobs [of "\<lambda>p. False" "py ''in''" ?ls ?entries] by simp
  then have 2: "resolve_images (\<lambda>p. False) ?ls (py ''in'') = Inr [py ''in/a.png'', py ''in/d.jpg'']"
    unfolding image_suffix_iff by (simp add: endswith_def join_def startswith_def)
  show ?thesis using 1 2 by blast
qed

section \<open>The postprocessor: threshold and top-k\<close>

lemma mask_select_Nil [simp]: "mask_select [] m = []" "mask_select xs [] = []"
  by (simp_all add: mask_select_def)

lemma mask_select_Cons [simp]:
  "mask_select (x # xs) (b # m) = (if b then x # mask_select xs m else mask_select xs m)"
  by (simp add: mask_select_def)




lemma scores_rows:
  assumes "wf_instances p"
  shows "scores p = map (\<lambda>r. snd (snd r)) (rows p)"
proof -
  have "map (\<lambda>r. snd (snd r)) (rows p) = map snd (map snd (rows p))" by simp
  also have "\<dots> = scores p" using assms by (simp add: wf_instances_def rows_def)
  finally show ?thesis by simp
qed

lemma labels_rows:
  assumes "wf_instances p"
  shows "labels p = map (\<lambda>r. fst (snd r)) (rows p)"
proof -
  have "map (\<lambda>r. fst (snd r)) (rows p) = map fst (map snd (rows p))" by simp
  also have "\<dots> = labels p" using assms by (simp add: wf_instances_def rows_def)
  finally show ?thesis by simp
qed

lemma zip_gathered:
  "\<forall>i\<in>set idx. i < length xs \<and> i < length ys \<Longrightarrow>
   zip (map (\<lambda>i. xs ! i) idx) (map (\<lambda>i. ys ! i) idx) = map (\<lambda>i. zip xs ys ! i) idx"
  by (induction idx) auto

lemma length_rows: "wf_instances p \<Longrightarrow> length (rows p) = length (scores p)"
  by (simp add: wf_instances_def rows_def)


lemma wf_threshold: "wf_instances p \<Longrightarrow> wf_instances (threshold_instances p t)"
proof -
  assume wf: "wf_instances p"
  have l: "length (mask_select xs m) = length (filter id (take (length xs) m))" for xs :: "'c list" and m
    by (induction m arbitrary: xs) (auto simp: take_Cons' split: list.splits, (case_tac xs; simp)+)
  show ?thesis using wf
    by (simp add: wf_instances_def threshold_instances_def getitem_mask_def l)
qed

lemma getitem_index_Inr:
  assumes "getitem_index p idx = Inr q"
  shows "bboxes q = map (\<lambda>i. bboxes p ! i) idx" "labels q = map (\<lambda>i. labels p ! i) idx"
    "scores q = map (\<lambda>i. scores p ! i) idx"
    "\<forall>i\<in>set idx. i < length (bboxes p) \<and> i < length (labels p) \<and> i < length (scores p)"
  using assms
  by (auto simp: getitem_index_def gather_def split: if_splits sum.splits)

lemma getitem_index_wf:
  assumes "wf_instances p" "\<forall>i\<in>set idx. i < length (scores p)"
  shows "getitem_index p idx =
           Inr \<lparr>bboxes = map (\<lambda>i. bboxes p ! i) idx, labels = map (\<lambda>i. labels p ! i) idx,
                scores = map (\<lambda>i. scores p ! i) idx\<rparr>"
  using assms by (simp add: getitem_index_def gather_def wf_instances_def)

lemma rows_getitem_index:
  assumes "wf_instances p" "getitem_index p idx = Inr q"
  shows "rows q = map (\<lambda>i. rows p ! i) idx" "wf_instances q"
proof -
  note q = getitem_index_Inr [OF assms(2)]
  show "wf_instances q" by (simp add: wf_instances_def q)
  have "\<forall>i\<in>set idx. i < length (scores p)" using q(4) by blast
  then show "rows q = map (\<lambda>i. rows p ! i) idx"
    using assms(1) unfolding rows_def q(1-3) wf_instances_def
    by (simp add: zip_gathered)
qed




lemma mset_gathered:
  assumes "distinct idx" "\<forall>i\<in>set idx. i < length xs"
  shows "mset xs = mset (map (\<lambda>i. xs ! i) idx) +
                   mset (map (\<lambda>i. xs ! i) (filter (\<lambda>j. j \<notin> set idx) [0..<length xs]))"
proof -
  let ?all = "[0..<length xs]"
  have "set (filter (\<lambda>j. j \<in> set idx) ?all) = set idx" using assms(2) by auto
  then have "mset (filter (\<lambda>j. j \<in> set idx) ?all) = mset idx"
    using assms(1) by (metis distinct_filter distinct_upt set_eq_iff_mset_eq_distinct)
  then have "mset ?all = mset idx + mset (filter (\<lambda>j. j \<notin> set idx) ?all)"
    by (metis mset_filter multiset_partition)
  then have "image_mset (\<lambda>i. xs ! i) (mset ?all) =
             image_mset (\<lambda>i. xs ! i) (mset idx + mset (filter (\<lambda>j. j \<notin> set idx) ?all))"
    by simp
  moreover have "map (\<lambda>i. xs ! i) ?all = xs" by (rule map_nth)
  ultimately show ?thesis by (metis image_mset_union mset_map)
qed

lemma topk_stable_is_topk:
  assumes "k \<le> length xs"
  shows "is_topk xs k (topk_stable xs k)"
proof -
  let ?f = "\<lambda>i. - (xs ! i)"
  let ?L = "sort_key ?f [0..<length xs]"
  have L: "?L = take k ?L @ drop k ?L" by simp
  have "sorted (map ?f ?L)" by (rule sorted_sort_key)
  then have "sorted_wrt (\<lambda>i j. ?f i \<le> ?f j) ?L" by (simp add: sorted_map)
  then have sw: "sorted_wrt (\<lambda>i j. xs ! j \<le> xs ! i) ?L" by simp
  then have "sorted_wrt (\<lambda>i j. xs ! j \<le> xs ! i) (take k ?L @ drop k ?L)" by simp
  then have s1: "sorted_wrt (\<lambda>i j. xs ! j \<le> xs ! i) (take k ?L)"
    and s2: "\<forall>i\<in>set (take k ?L). \<forall>j\<in>set (drop k ?L). xs ! j \<le> xs ! i"
    unfolding sorted_wrt_append by blast+
  have setL: "set ?L = {0..<length xs}" by simp
  have "set ?L = set (take k ?L) \<union> set (drop k ?L)" by (metis L set_append)
  then have rest: "set [0..<length xs] - set (take k ?L) \<subseteq> set (drop k ?L)"
    using setL by auto
  have "length (take k ?L) = k" using assms by simp
  moreover have "distinct (take k ?L)" by (simp add: distinct_take)
  moreover have "\<forall>i\<in>set (take k ?L). i < length xs"
    using setL by (metis atLeastLessThan_iff in_set_takeD)
  ultimately show ?thesis
    unfolding is_topk_def topk_stable_def using s1 s2 rest by blast
qed

text \<open>
  Claim C2. For \<open>k \<ge> 0\<close> and a top-k selection that keeps the library's promise on the
  thresholded scores, postprocessing returns at most \<open>k\<close> instances. When the thresholded
  list has at most \<open>k\<close> instances it is returned as it is. When it has more, the output
  has exactly \<open>k\<close> instances, all taken from the thresholded list (with multiplicity),
  and every instance left out has a score no greater than every instance kept: the kept
  ones are \<open>k\<close> highest-scoring instances, whatever the order among equal scores.
\<close>

theorem topk_truncation:
  assumes "wf_instances p" and "thr = threshold_instances p t" and "0 \<le> k"
    and "k < int (length (scores thr)) \<Longrightarrow>
         is_topk (scores thr) (nat k) (tk (scores thr) (nat k))"
  shows "\<exists>out. postprocess tk p k t = Inr out \<and> wf_instances out \<and>
           int (length (rows out)) \<le> k \<and>
           (int (length (rows thr)) \<le> k \<longrightarrow> out = thr) \<and>
           (k < int (length (rows thr)) \<longrightarrow>
              int (length (rows out)) = k \<and> mset (rows out) \<subseteq># mset (rows thr) \<and>
              (\<forall>(b, c, s)\<in>set (rows out).
                 \<forall>(b', c', s')\<in>#(mset (rows thr) - mset (rows out)). s' \<le> s))"
proof (cases "k < int (length (scores thr))")
  case False
  have wf: "wf_instances thr" using assms(1,2) by (simp add: wf_threshold)
  have "postprocess tk p k t = Inr thr"
    using False assms(2) by (simp add: postprocess_def truncate_instances_def)
  then show ?thesis using False wf by (simp add: length_rows)
next
  case True
  let ?idx = "tk (scores thr) (nat k)"
  have wf: "wf_instances thr" using assms(1,2) by (simp add: wf_threshold)
  have tk: "is_topk (scores thr) (nat k) ?idx" using True assms(4) by simp
  then have len: "length ?idx = nat k" and dist: "distinct ?idx"
    and range: "\<forall>i\<in>set ?idx. i < length (scores thr)"
    and top: "\<forall>i\<in>set ?idx. \<forall>j\<in>set [0..<length (scores thr)] - set ?idx.
                scores thr ! j \<le> scores thr ! i"
    unfolding is_topk_def by blast+
  have "topk tk (scores thr) k = Inr ?idx"
    using True assms(3) by (simp add: topk_def)
  then have "postprocess tk p k t = getitem_index thr ?idx"
    using True assms(2) by (simp add: postprocess_def truncate_instances_def)
  then obtain out where out: "postprocess tk p k t = Inr out" "getitem_index thr ?idx = Inr out"
    using getitem_index_wf [OF wf range] by simp
  have rows: "rows out = map (\<lambda>i. rows thr ! i) ?idx" and wfo: "wf_instances out"
    using rows_getitem_index [OF wf out(2)] by simp_all
  have n: "length (rows thr) = length (scores thr)" using wf by (rule length_rows)
  let ?rest = "filter (\<lambda>j. j \<notin> set ?idx) [0..<length (rows thr)]"
  have part: "mset (rows thr) = mset (rows out) + mset (map (\<lambda>i. rows thr ! i) ?rest)"
    unfolding rows using mset_gathered [OF dist, of "rows thr"] range n by simp
  then have sub: "mset (rows out) \<subseteq># mset (rows thr)" by simp
  have diff: "mset (rows thr) - mset (rows out) = mset (map (\<lambda>i. rows thr ! i) ?rest)"
    using part by simp
  have sc: "snd (snd (rows thr ! i)) = scores thr ! i" if "i < length (scores thr)" for i
    using that n scores_rows [OF wf] by (metis nth_map)
  have best: "snd (snd r') \<le> snd (snd r)"
    if r: "r \<in> set (rows out)" and r': "r' \<in># mset (rows thr) - mset (rows out)" for r r'
  proof -
    obtain i where i: "i \<in> set ?idx" "r = rows thr ! i" using r rows by auto
    obtain j where j: "j \<in> set ?rest" "r' = rows thr ! j" using r' diff by auto
    have "j \<in> set [0..<length (scores thr)] - set ?idx" using j(1) n by simp
    then have "scores thr ! j \<le> scores thr ! i" using top i(1) by blast
    moreover have "i < length (scores thr)" using i(1) range by blast
    moreover have "j < length (scores thr)" using j(1) n by simp
    ultimately show ?thesis using i(2) j(2) by (simp add: sc)
  qed
  have "int (length (rows out)) = k" using rows len assms(3) by simp
  with out(1) wfo sub best True n show ?thesis by (auto simp: case_prod_unfold)
qed

theorem topk_truncation_witness:
  "wf_instances \<lparr>bboxes = [1, 2, 3, 4 :: nat], labels = [0, 0, 1, 1],
                  scores = [9 / 10, 4 / 10, 6 / 10, 95 / 100]\<rparr> \<and>
   (\<exists>out. postprocess topk_stable
            \<lparr>bboxes = [1, 2, 3, 4 :: nat], labels = [0, 0, 1, 1],
             scores = [9 / 10, 4 / 10, 6 / 10, 95 / 100]\<rparr> 2 (1 / 2) = Inr out \<and>
      int (length (rows out)) = 2 \<and>
      mset (rows out) \<subseteq># mset [(1, 0, 9 / 10), (3, 1, 6 / 10), (4, 1, 95 / 100)])"
proof -
  let ?p = "\<lparr>bboxes = [1, 2, 3, 4 :: nat], labels = [0, 0, 1, 1],
             scores = [9 / 10, 4 / 10, 6 / 10, 95 / 100]\<rparr>"
  let ?thr = "threshold_instances ?p (1 / 2)"
  have wf: "wf_instances ?p" by (simp add: wf_instances_def)
  have sc: "scores ?thr = [9 / 10, 6 / 10, 95 / 100]"
    by (simp add: threshold_instances_def getitem_mask_def mask_select_def)
  have rw: "rows ?thr = [(1, 0, 9 / 10), (3, 1, 6 / 10), (4, 1, 95 / 100)]"
    by (simp add: threshold_instances_def getitem_mask_def mask_select_def rows_def)
  have tk: "is_topk (scores ?thr) (nat 2) (topk_stable (scores ?thr) (nat 2))"
    unfolding sc by (rule topk_stable_is_topk) simp
  show ?thesis
    using wf topk_truncation [OF wf refl, of 2 "1 / 2" topk_stable, OF _ tk]
    unfolding rw by auto
qed

text \<open>
  A negative \<open>max_dets\<close> is below every length, so the selection is always asked for and
  the tensor library rejects the negative \<open>k\<close>.
\<close>

lemma postprocess_negative_topk: "k < 0 \<Longrightarrow> postprocess tk p k t = Inl RuntimeError"
  by (simp add: postprocess_def truncate_instances_def topk_def)

text \<open>The scenario of the threshold 0.5 and \<open>topk = 2\<close> on the scores 0.9, 0.4, 0.6, 0.95.\<close>

lemma scenario_topk:
  "postprocess topk_stable
     \<lparr>bboxes = [1, 2, 3, 4 :: nat], labels = [0, 0, 1, 1],
      scores = [9 / 10, 4 / 10, 6 / 10, 95 / 100]\<rparr> 2 (1 / 2) =
   Inr \<lparr>bboxes = [4, 1], labels = [1, 0], scores = [95 / 100, 9 / 10]\<rparr>"
  by (simp add: postprocess_def truncate_instances_def threshold_instances_def
      getitem_mask_def mask_select_def topk_def topk_stable_def getitem_index_def gather_def
      upt_rec [of 0] upt_rec [of 1] upt_rec [of 2])

section \<open>Labels: indexing and format\<close>





lemma py_getitem_Cons_0 [simp]: "py_getitem (x # xs) 0 = Inr x"
  by (simp add: py_getitem_def)

lemma py_getitem_0: "py_getitem g 0 = Inr x \<longleftrightarrow> (\<exists>rest. g = x # rest)"
  by (cases g) (auto simp: py_getitem_def)

lemma make_label_Inr:
  "make_label texts c s = Inr l \<longleftrightarrow>
   (\<exists>name rest. py_getitem texts c = Inr (name # rest) \<and>
                 l = name @ py '' '' @ py (format_2f s))"
  unfolding make_label_def
  by (auto simp: py_getitem_0 simp del: of_char_Char split: sum.splits)






lemma set_mask_select: "set (mask_select xs m) \<subseteq> set xs"
  unfolding mask_select_def by (auto dest: set_zip_leftD)

lemma postprocess_labels_subset:
  assumes "postprocess tk p k t = Inr q"
  shows "set (labels q) \<subseteq> set (labels p)"
proof -
  let ?thr = "threshold_instances p t"
  have thr: "set (labels ?thr) \<subseteq> set (labels p)"
    by (simp add: threshold_instances_def getitem_mask_def set_mask_select)
  have "set (labels q) \<subseteq> set (labels ?thr)"
  proof (cases "k < int (length (scores ?thr))")
    case True
    then obtain idx where "getitem_index ?thr idx = Inr q"
      using assms by (auto simp: postprocess_def truncate_instances_def split: sum.splits)
    from getitem_index_Inr [OF this] show ?thesis by auto
  next
    case False
    then show ?thesis using assms by (simp add: postprocess_def truncate_instances_def)
  qed
  with thr show ?thesis by blast
qed

lemma py_getitem_index:
  "0 \<le> c \<Longrightarrow> c < int (length xs) \<Longrightarrow> py_getitem xs c = Inr (xs ! nat c)"
  by (simp add: py_getitem_def)

lemma make_label_in_bounds:
  assumes "0 \<le> c" "c < int (length texts)" "\<forall>g\<in>set texts. g \<noteq> []"
  shows "\<exists>name rest. py_getitem texts c = Inr (name # rest) \<and>
           make_label texts c s = Inr (name @ py '' '' @ py (format_2f s))"
proof -
  have "texts ! nat c \<in> set texts" using assms(1,2) by simp
  then obtain name rest where "texts ! nat c = name # rest"
    using assms(3) by (meson list.exhaust)
  then have "py_getitem texts c = Inr (name # rest)"
    using py_getitem_index [OF assms(1,2)] by simp
  then show ?thesis unfolding make_label_Inr by blast
qed

lemma collect_all_Inr:
  "\<forall>r\<in>set rs. \<exists>x. r = Inr x \<Longrightarrow> \<exists>xs. collect rs = Inr xs \<and> length xs = length rs"
  by (induction rs rule: collect.induct) auto

text \<open>
  Claim C9. A class index is a position in the prompt set: it is not negative and it is
  less than the length of the prompt set. When the raw instances of the detector satisfy
  this and every prompt group is non-empty, every instance that survives postprocessing
  satisfies it as well, both indexings \<open>texts[class_id][0]\<close> are in bounds for it, and
  building the labels returns one label per instance: no \<open>IndexError\<close> is raised.
\<close>

theorem labels_in_bounds:
  assumes "\<forall>c\<in>set (labels raw). 0 \<le> c \<and> c < int (length texts)"
    and "\<forall>g\<in>set texts. g \<noteq> []"
    and "postprocess tk raw k t = Inr pred"
  shows "(\<forall>c\<in>set (labels pred). 0 \<le> c \<and> c < int (length texts) \<and>
            (\<exists>name rest. py_getitem texts c = Inr (name # rest))) \<and>
         (\<exists>lbls. make_labels texts pred = Inr lbls \<and>
            length lbls = length (zip (labels pred) (scores pred)))"
proof -
  have inv: "\<forall>c\<in>set (labels pred). 0 \<le> c \<and> c < int (length texts)"
    using assms(1) postprocess_labels_subset [OF assms(3)] by blast
  have ok: "\<exists>name rest. py_getitem texts c = Inr (name # rest) \<and>
              make_label texts c s = Inr (name @ py '' '' @ py (format_2f s))"
    if "c \<in> set (labels pred)" for c s
    using make_label_in_bounds [OF _ _ assms(2)] inv that by blast
  let ?rs = "map (\<lambda>(class_id, confidence). make_label texts class_id confidence)
               (zip (labels pred) (scores pred))"
  have "\<forall>r\<in>set ?rs. \<exists>x. r = Inr x"
    using ok by (auto dest!: set_zip_leftD)
  from collect_all_Inr [OF this] have
    "\<exists>lbls. make_labels texts pred = Inr lbls \<and>
       length lbls = length (zip (labels pred) (scores pred))"
    unfolding make_labels_def by simp
  with inv ok show ?thesis by blast
qed

theorem labels_in_bounds_witness:
  "postprocess topk_stable
     \<lparr>bboxes = [(), (), ()], labels = [1, 0, 2], scores = [9 / 10, 4 / 10, 6 / 10]\<rparr> 2 (1 / 2) =
     Inr \<lparr>bboxes = [(), ()], labels = [1, 2], scores = [9 / 10, 6 / 10]\<rparr> \<and>
   (\<exists>lbls. make_labels [[py ''cat''], [py ''dog''], [py '' '']]
             \<lparr>bboxes = [(), ()], labels = [1, 2], scores = [9 / 10, 6 / 10]\<rparr> = Inr lbls \<and>
      length lbls = 2)"
proof -
  let ?texts = "[[py ''cat''], [py ''dog''], [py '' '']]"
  let ?raw = "\<lparr>bboxes = [(), (), ()], labels = [1, 0, 2], scores = [9 / 10, 4 / 10, 6 / 10]\<rparr>"
  let ?pred = "\<lparr>bboxes = [(), ()], labels = [1, 2], scores = [9 / 10, 6 / 10]\<rparr>"
  have h1: "\<forall>c\<in>set (labels ?raw). 0 \<le> c \<and> c < int (length ?texts)" by simp
  have h2: "\<forall>g\<in>set ?texts. g \<noteq> []" by simp
  have h3: "postprocess topk_stable ?raw 2 (1 / 2) = Inr ?pred"
    by (simp add: postprocess_def truncate_instances_def threshold_instances_def
        getitem_mask_def mask_select_def)
  show ?thesis using h3 labels_in_bounds [OF h1 h2 h3] by (auto simp: eval_nat_numeral)
qed

section \<open>The written image\<close>







end
